theory Spec2Isabelle
  imports
    Complex_Main
    "HOL-Library.Sublist"
    "HOL-Library.AList"
    "HOL-Library.Char_ord"
    "HOL-Library.List_Lexorder"
    "HOL-Library.Product_Lexorder"
begin

section \<open>Strings as Python sees them\<close>

text \<open>
  A Python \<^verbatim>\<open>str\<close> is modelled as a \<^typ>\<open>string\<close>; a \<^typ>\<open>char\<close> stands for a
  code point below 256. On that range \<^verbatim>\<open>str.isspace\<close>, the regular expression class
  \<^verbatim>\<open>\s\<close> and the characters removed by \<^verbatim>\<open>str.strip()\<close> are the same set, and
  \<^verbatim>\<open>\d\<close> is the ten ASCII digits.
\<close>

definition isspace :: "char \<Rightarrow> bool" where
  "isspace c = (c \<in> set [CHR 0x09, CHR 0x0A, CHR 0x0B, CHR 0x0C, CHR 0x0D,
                          CHR 0x1C, CHR 0x1D, CHR 0x1E, CHR 0x1F, CHR 0x20,
                          CHR 0x85, CHR 0xA0])"

definition isdigit :: "char \<Rightarrow> bool" where
  "isdigit c = (c \<in> set ''0123456789'')"

text \<open>\<^verbatim>\<open>s.strip()\<close>: leading and trailing whitespace removed.\<close>

definition strip :: "string \<Rightarrow> string" where
  "strip s = rev (dropWhile isspace (rev (dropWhile isspace s)))"

text \<open>\<^verbatim>\<open>sub in s\<close>: \<open>sub\<close> occurs in \<open>s\<close> as a contiguous block.\<close>

fun str_in :: "string \<Rightarrow> string \<Rightarrow> bool" where
  "str_in sub [] = (sub = [])"
| "str_in sub (c # cs) = (prefix sub (c # cs) \<or> str_in sub cs)"

text \<open>\<^verbatim>\<open>s.split(sep)[0]\<close>: the text before the first occurrence of \<open>sep\<close>, all of
  \<open>s\<close> when there is none.\<close>

fun split_first :: "string \<Rightarrow> string \<Rightarrow> string" where
  "split_first sep [] = []"
| "split_first sep (c # cs) = (if prefix sep (c # cs) then [] else c # split_first sep cs)"

text \<open>
  \<^verbatim>\<open>text.splitlines()\<close>: the text is cut at every line boundary (\<^verbatim>\<open>\n\<close>, \<^verbatim>\<open>\r\<close>,
  \<^verbatim>\<open>\r\n\<close> as one boundary, \<^verbatim>\<open>\v\<close>, \<^verbatim>\<open>\f\<close>, \<^verbatim>\<open>\x1c\<close>, \<^verbatim>\<open>\x1d\<close>, \<^verbatim>\<open>\x1e\<close>,
  \<^verbatim>\<open>\x85\<close>); the boundaries are dropped and a boundary at the very end opens no
  further line. The first argument collects the current line, reversed.
\<close>

definition is_linebreak :: "char \<Rightarrow> bool" where
  "is_linebreak c = (c \<in> set [CHR 0x0A, CHR 0x0B, CHR 0x0C, CHR 0x0D,
                               CHR 0x1C, CHR 0x1D, CHR 0x1E, CHR 0x85])"

fun split_acc :: "string \<Rightarrow> string \<Rightarrow> string list" where
  "split_acc acc [] = (if acc = [] then [] else [rev acc])"
| "split_acc acc [c] = (if is_linebreak c then [rev acc] else [rev (c # acc)])"
| "split_acc acc (c # d # cs) =
     (if c = CHR 0x0D \<and> d = CHR 0x0A then rev acc # split_acc [] cs
      else if is_linebreak c then rev acc # split_acc [] (d # cs)
      else split_acc (c # acc) (d # cs))"

definition splitlines :: "string \<Rightarrow> string list" where
  "splitlines s = split_acc [] s"

section \<open>Regular expressions\<close>

text \<open>
  The patterns of the program are sequences of character classes, each taken once or
  under a greedy \<^verbatim>\<open>*\<close> or \<^verbatim>\<open>+\<close>, with at most one capture group. An item is
  \<open>(g, q, c)\<close>: class \<open>c\<close> under quantifier \<open>q\<close>, inside group 1 when \<open>g\<close> holds.
  \<open>re_here\<close> is the backtracking matcher of Python's \<^verbatim>\<open>re\<close>: a quantified class
  first takes the longest run it can and gives characters back one at a time while the
  rest of the pattern fails. The result is \<open>None\<close> when there is no match and
  \<open>Some g\<close>, with \<open>g\<close> the text of group 1 (empty without a group), when there is one.
\<close>

datatype cls = Space | NonSpace | Digit | Lit char

datatype quant = One | Star | Plus

type_synonym item = "bool \<times> quant \<times> cls"

fun cls_match :: "cls \<Rightarrow> char \<Rightarrow> bool" where
  "cls_match Space c = isspace c"
| "cls_match NonSpace c = (\<not> isspace c)"
| "cls_match Digit c = isdigit c"
| "cls_match (Lit a) c = (c = a)"

fun first_some :: "('a \<Rightarrow> 'b option) \<Rightarrow> 'a list \<Rightarrow> 'b option" where
  "first_some f [] = None"
| "first_some f (x # xs) = (case f x of Some y \<Rightarrow> Some y | None \<Rightarrow> first_some f xs)"

fun re_here :: "item list \<Rightarrow> string \<Rightarrow> string option" where
  "re_here [] s = Some []"
| "re_here ((g, q, c) # its) s =
    (let n = length (takeWhile (cls_match c) s);
         lens = (case q of One \<Rightarrow> (if 0 < n then [1] else [])
                         | Star \<Rightarrow> rev [0..<Suc n]
                         | Plus \<Rightarrow> rev [1..<Suc n])
     in first_some (\<lambda>k. case re_here its (drop k s) of
                            None \<Rightarrow> None
                          | Some cap \<Rightarrow> Some ((if g then take k s else []) @ cap)) lens)"

text \<open>\<^verbatim>\<open>re.match\<close> tries the pattern at the start of the string only; \<^verbatim>\<open>re.search\<close>
  tries every start from left to right and keeps the first match.\<close>

definition re_match :: "item list \<Rightarrow> string \<Rightarrow> string option" where
  "re_match p s = re_here p s"

definition re_search :: "item list \<Rightarrow> string \<Rightarrow> string option" where
  "re_search p s = first_some (\<lambda>i. re_here p (drop i s)) [0..<Suc (length s)]"

definition lit :: "string \<Rightarrow> item list" where
  "lit s = map (\<lambda>c. (False, One, Lit c)) s"

text \<open>\<^verbatim>\<open>(\S+)\s*-\s*Test results:\<close>\<close>

definition pat_old :: "item list" where
  "pat_old = [(True, Plus, NonSpace), (False, Star, Space)] @ lit ''-'' @
             [(False, Star, Space)] @ lit ''Test results:''"

text \<open>\<^verbatim>\<open>not ok\s+\d+\s*-\s*(\S+)\<close>\<close>

definition pat_notok :: "item list" where
  "pat_notok = lit ''not ok'' @ [(False, Plus, Space), (False, Plus, Digit), (False, Star, Space)] @
               lit ''-'' @ [(False, Star, Space), (True, Plus, NonSpace)]"

text \<open>\<^verbatim>\<open>ok\s+\d+\s*-\<close>\<close>

definition pat_ok_line :: "item list" where
  "pat_ok_line = lit ''ok'' @ [(False, Plus, Space), (False, Plus, Digit), (False, Star, Space)] @
                 lit ''-''"

text \<open>\<^verbatim>\<open>not ok\s+\d+\s*-\<close>\<close>

definition pat_notok_line :: "item list" where
  "pat_notok_line = lit ''not ok'' @
                    [(False, Plus, Space), (False, Plus, Digit), (False, Star, Space)] @ lit ''-''"

section \<open>Noise filter\<close>

definition is_noise_change :: "string \<Rightarrow> bool" where
  "is_noise_change line0 =
     (let line = strip line0 in
      if line = [] then True
      else if str_in ''TEST:'' line then False
      else True)"

section \<open>Passing-line filter\<close>

text \<open>
  One turn of the loop of \<^verbatim>\<open>filter_ok_tests\<close> on the state \<open>(filtered, skip_mode)\<close>.
\<close>

definition filter_step :: "string list \<times> bool \<Rightarrow> string \<Rightarrow> string list \<times> bool" where
  "filter_step st line =
     (let filtered = fst st; skip_mode = snd st; stripped = strip line in
      if re_match pat_ok_line stripped \<noteq> None then (filtered, True)
      else if re_match pat_notok_line stripped \<noteq> None then (filtered @ [line], False)
      else if \<not> skip_mode then (filtered @ [line], skip_mode)
      else (filtered, skip_mode))"

definition filter_ok_tests :: "string list \<Rightarrow> string list" where
  "filter_ok_tests lines = fst (foldl filter_step ([], False) lines)"

text \<open>The same loop as a recursion on the lines still to read, for the proofs.\<close>

fun filter_rest :: "bool \<Rightarrow> string list \<Rightarrow> string list" where
  "filter_rest skip_mode [] = []"
| "filter_rest skip_mode (line # rest) =
     (if re_match pat_ok_line (strip line) \<noteq> None then filter_rest True rest
      else if re_match pat_notok_line (strip line) \<noteq> None then line # filter_rest False rest
      else if \<not> skip_mode then line # filter_rest skip_mode rest
      else filter_rest skip_mode rest)"

section \<open>Section parser\<close>

text \<open>
  The dictionary \<^verbatim>\<open>sections\<close> keeps its keys in insertion order; it is an association
  list, and \<^verbatim>\<open>sections[k] = v\<close> is \<^const>\<open>AList.update\<close> (the value is replaced in place
  when the key is present, the pair is added at the end when it is not).
\<close>

record parse_state =
  sections :: "(string \<times> string list) list"
  current_suite :: "string option"
  current_lines :: "string list"

text \<open>
  The test on a trimmed line that opens a suite: the name of the suite and the lines it
  starts with, or \<open>None\<close> for a line that opens nothing.
\<close>

definition boundary :: "string \<Rightarrow> (string \<times> string list) option" where
  "boundary line =
     (let m_old = re_search pat_old line;
          m_notok = re_match pat_notok line
      in if str_in ''- Test results:'' line then
           Some (case m_old of
                   Some g \<Rightarrow> strip g
                 | None \<Rightarrow> strip (split_first ''- Test results:'' line),
                 if m_notok \<noteq> None then [line] else [])
         else (case m_notok of
                 Some g \<Rightarrow> Some (strip g, [line])
               | None \<Rightarrow> None))"

text \<open>\<^verbatim>\<open>if current_suite is not None: sections[current_suite] = current_lines\<close>\<close>

definition commit :: "parse_state \<Rightarrow> (string \<times> string list) list" where
  "commit st =
     (case current_suite st of
        None \<Rightarrow> sections st
      | Some s \<Rightarrow> AList.update s (current_lines st) (sections st))"

definition parse_step :: "parse_state \<Rightarrow> string \<Rightarrow> parse_state" where
  "parse_step st raw =
     (let line = strip raw in
      case boundary line of
        None \<Rightarrow>
          (if current_suite st \<noteq> None then st\<lparr>current_lines := current_lines st @ [line]\<rparr>
           else st)
      | Some (suite, first_lines) \<Rightarrow>
          \<lparr>sections = commit st, current_suite = Some suite, current_lines = first_lines\<rparr>)"

definition parse_lines :: "string list \<Rightarrow> (string \<times> string list) list" where
  "parse_lines lns =
     commit (foldl parse_step \<lparr>sections = [], current_suite = None, current_lines = []\<rparr> lns)"

definition parse_log_sections :: "string \<Rightarrow> (string \<times> string list) list" where
  "parse_log_sections txt = parse_lines (splitlines txt)"

section \<open>Semantic change detector\<close>

text \<open>
  The sentence-embedding model and \<^verbatim>\<open>difflib.SequenceMatcher\<close> are libraries outside
  the repository; they are parameters of the model. \<open>cos_sim new old i j\<close> is the entry
  \<open>(i, j)\<close> of \<^verbatim>\<open>util.cos_sim(model.encode(new), model.encode(old))\<close>, and
  \<open>ratio a b\<close> is \<^verbatim>\<open>difflib.SequenceMatcher(None, a, b).ratio()\<close>. Scores are read as
  the real numbers the floats stand for (no NaN).
\<close>

type_synonym sim_oracle = "string list \<Rightarrow> string list \<Rightarrow> nat \<Rightarrow> nat \<Rightarrow> real"

type_synonym ratio_oracle = "string \<Rightarrow> string \<Rightarrow> real"

text \<open>\<^verbatim>\<open>[ln.strip() for ln in lines if ln.strip()]\<close>\<close>

definition clean_lines :: "string list \<Rightarrow> string list" where
  "clean_lines lns = map strip (filter (\<lambda>ln. strip ln \<noteq> []) lns)"

text \<open>
  \<^verbatim>\<open>sims.max(dim=1)\<close> on one row: the largest score and the index of its first
  occurrence. \<open>row_max best j xs\<close> scans the scores \<open>xs\<close>, which start at index \<open>j\<close>.
  The rows of the program are never empty (the baseline has a line).
\<close>

fun row_max :: "real \<times> nat \<Rightarrow> nat \<Rightarrow> real list \<Rightarrow> real \<times> nat" where
  "row_max best j [] = best"
| "row_max best j (x # xs) = row_max (if fst best < x then (x, j) else best) (Suc j) xs"

fun torch_max :: "real list \<Rightarrow> real \<times> nat" where
  "torch_max (x # xs) = row_max (x, 0) 1 xs"

text \<open>\<^verbatim>\<open>f"{ratio:.2f}"\<close>: two decimals, the tie between two neighbours going to the
  even one.\<close>

definition round_half_even :: "real \<Rightarrow> int" where
  "round_half_even x =
     (let n = \<lfloor>x\<rfloor>; f = x - of_int n in
      if f < 1 / 2 then n else if 1 / 2 < f then n + 1 else if even n then n else n + 1)"

definition digit_char :: "nat \<Rightarrow> char" where
  "digit_char d = ''0123456789'' ! d"

fun show_nat :: "nat \<Rightarrow> string" where
  "show_nat n = (if n < 10 then [digit_char n] else show_nat (n div 10) @ [digit_char (n mod 10)])"

declare show_nat.simps [simp del]

definition fmt2 :: "real \<Rightarrow> string" where
  "fmt2 r =
     (let n = nat (round_half_even (\<bar>r\<bar> * 100)) in
      (if r < 0 then ''-'' else []) @ show_nat (n div 100) @ ''.'' @
      [digit_char (n div 10 mod 10), digit_char (n mod 10)])"

text \<open>One turn of the loop over \<^verbatim>\<open>enumerate(max_scores)\<close>.\<close>

definition compare_step ::
  "ratio_oracle \<Rightarrow> real \<Rightarrow> real \<Rightarrow> real \<Rightarrow> string list \<Rightarrow> string list \<Rightarrow> (real \<times> nat) list \<Rightarrow>
   string list \<Rightarrow> nat \<Rightarrow> string list" where
  "compare_step ratio threshold_main threshold_fallback difflib_cutoff old_lines new_lines maxes
     changes i =
     (let score = fst (maxes ! i);
          new_line = new_lines ! i;
          old_line = old_lines ! snd (maxes ! i)
      in if score < threshold_main then changes @ [new_line]
         else if score > threshold_fallback then
           (let r = ratio new_line old_line in
            if r < difflib_cutoff then changes @ [new_line @ '' (difflib='' @ fmt2 r @ '')'']
            else changes)
         else changes)"

definition compare_sections ::
  "sim_oracle \<Rightarrow> ratio_oracle \<Rightarrow> string list \<Rightarrow> string list \<Rightarrow> real \<Rightarrow> real \<Rightarrow> real \<Rightarrow>
   string list" where
  "compare_sections cos_sim ratio old_lines0 new_lines0 threshold_main threshold_fallback
     difflib_cutoff =
     (let old_lines = clean_lines old_lines0;
          new_lines = clean_lines new_lines0
      in if old_lines = [] \<or> new_lines = [] then new_lines
         else
           (let sims = map (\<lambda>i. map (\<lambda>j. cos_sim new_lines old_lines i j)
                                      [0..<length old_lines])
                           [0..<length new_lines];
                maxes = map torch_max sims
            in foldl (compare_step ratio threshold_main threshold_fallback difflib_cutoff
                        old_lines new_lines maxes)
                 [] [0..<length maxes]))"

text \<open>Test doubles for the oracles: a similarity matrix with the same score everywhere,
  a textual ratio that tells equal lines from different ones, and a similarity matrix
  that does the same.\<close>

definition const_sim :: "real \<Rightarrow> sim_oracle" where
  "const_sim s new old i j = s"

definition exact_ratio :: ratio_oracle where
  "exact_ratio a b = (if a = b then 1 else 0)"

definition exact_sim :: sim_oracle where
  "exact_sim new old i j = (if new ! i = old ! j then 1 else 0)"

section \<open>Suite aligner\<close>

text \<open>
  \<^verbatim>\<open>difflib.get_close_matches(word, possibilities, n, cutoff)\<close> of Python's standard
  library, after its documentation: the possibilities whose ratio with \<open>word\<close> reaches
  the cutoff, the \<open>n\<close> best first, ordered by the pair (ratio, candidate).
\<close>

definition get_close_matches ::
  "ratio_oracle \<Rightarrow> string \<Rightarrow> string list \<Rightarrow> nat \<Rightarrow> real \<Rightarrow> string list" where
  "get_close_matches ratio word possibilities n cutoff =
     map snd (take n (rev (sort (map (\<lambda>x. (ratio x word, x))
                                      (filter (\<lambda>x. cutoff \<le> ratio x word) possibilities)))))"

datatype match_result = Exact string | Fuzzy string | NoMatch

text \<open>The choice of \<^verbatim>\<open>matched\<close> in the main loop, for one suite of the current run.\<close>

definition align :: "ratio_oracle \<Rightarrow> string \<Rightarrow> (string \<times> string list) list \<Rightarrow> match_result" where
  "align ratio suite_name old_sections =
     (if suite_name \<in> set (map fst old_sections) then Exact suite_name
      else (case get_close_matches ratio suite_name (map fst old_sections) 1 (6 / 10) of
              [] \<Rightarrow> NoMatch
            | m # _ \<Rightarrow> Fuzzy m))"

text \<open>A test double for the ratio of two suite names: 1 for equal names, 0.9 for
  different names of the same length, 0 otherwise.\<close>

definition name_ratio :: ratio_oracle where
  "name_ratio a b = (if a = b then 1 else if length a = length b then 9 / 10 else 0)"

section \<open>Report of a compared suite\<close>

text \<open>What the main loop writes once \<^verbatim>\<open>changes\<close> is known.\<close>

definition write_changes :: "string list \<Rightarrow> string" where
  "write_changes changes =
     (let noise = filter is_noise_change changes;
          real_changes = filter (\<lambda>c. \<not> is_noise_change c) changes
      in (if real_changes \<noteq> [] then
            ''Real semantic changes:\<newline>'' @ concat (map (\<lambda>c. ''   - '' @ c @ ''\<newline>'') real_changes)
          else ''No meaningful test differences.\<newline>'') @ ''\<newline>'')"

section \<open>Properties of the string layer\<close>

lemma str_in_sublist: "str_in sub s = sublist sub s"
  by (induction s) (auto simp: sublist_Cons_right)

lemma sublist_skip_head:
  assumes "sub \<noteq> []" and "hd sub \<noteq> w"
  shows "sublist sub (w # s) = sublist sub s"
  using assms by (cases sub) (auto simp: sublist_Cons_right)

lemma sublist_dropWhile:
  assumes "sub \<noteq> []" and "\<not> P (hd sub)"
  shows "sublist sub (dropWhile P s) = sublist sub s"
proof (induction s)
  case Nil
  show ?case by simp
next
  case (Cons w s)
  show ?case
  proof (cases "P w")
    case True
    with assms have "hd sub \<noteq> w" by auto
    with assms(1) have "sublist sub (w # s) = sublist sub s"
      by (rule sublist_skip_head)
    with True Cons show ?thesis by simp
  next
    case False
    then show ?thesis by simp
  qed
qed

lemma sublist_strip:
  assumes "sub \<noteq> []" and "\<not> isspace (hd sub)" and "\<not> isspace (last sub)"
  shows "sublist sub (strip s) = sublist sub s"
proof -
  have r: "rev sub \<noteq> []" "\<not> isspace (hd (rev sub))"
    using assms by (simp_all add: hd_rev)
  have "sublist sub (strip s) = sublist (rev sub) (dropWhile isspace (rev (dropWhile isspace s)))"
    unfolding strip_def by (simp add: sublist_rev_left)
  also have "\<dots> = sublist (rev sub) (rev (dropWhile isspace s))"
    using r by (rule sublist_dropWhile)
  also have "\<dots> = sublist sub (dropWhile isspace s)"
    by simp
  also have "\<dots> = sublist sub s"
    using assms(1,2) by (rule sublist_dropWhile)
  finally show ?thesis .
qed

lemma dropWhile_all_iff: "(\<forall>x\<in>set (dropWhile P s). P x) \<longleftrightarrow> (\<forall>x\<in>set s. P x)"
  by (induction s) auto

lemma strip_empty_iff: "strip s = [] \<longleftrightarrow> (\<forall>c\<in>set s. isspace c)"
  by (simp add: strip_def dropWhile_eq_Nil_conv dropWhile_all_iff)

section \<open>The noise classifier\<close>

text \<open>
  C8. A blank or whitespace-only line is noise, a line that contains the marker
  \<^verbatim>\<open>TEST:\<close> is real, every other line is noise; a line is real exactly when its
  trimmed form is not empty and contains \<^verbatim>\<open>TEST:\<close>.
\<close>

theorem is_noise_change_policy:
  "((\<forall>c\<in>set l. isspace c) \<longrightarrow> is_noise_change l) \<and>
   (str_in ''TEST:'' l \<longrightarrow> \<not> is_noise_change l) \<and>
   (\<not> str_in ''TEST:'' l \<longrightarrow> is_noise_change l) \<and>
   (\<not> is_noise_change l \<longleftrightarrow> strip l \<noteq> [] \<and> str_in ''TEST:'' (strip l))"
proof -
  have a: "str_in ''TEST:'' (strip l) = str_in ''TEST:'' l"
    unfolding str_in_sublist by (rule sublist_strip) (simp_all add: isspace_def)
  have b: "str_in ''TEST:'' l \<Longrightarrow> strip l \<noteq> []"
  proof
    assume "str_in ''TEST:'' l" and "strip l = []"
    with a have "str_in ''TEST:'' []" by simp
    then show False by simp
  qed
  show ?thesis
    using a b by (auto simp: is_noise_change_def Let_def strip_empty_iff)
qed

theorem is_noise_change_policy_witness:
  "is_noise_change ''  '' \<and> \<not> is_noise_change '' TEST: login succeeds'' \<and>
   is_noise_change ''error: timeout''"
  using is_noise_change_policy [of "''  ''"]
    is_noise_change_policy [of "'' TEST: login succeeds''"]
    is_noise_change_policy [of "''error: timeout''"]
  by (simp add: isspace_def)

section \<open>The passing-line filter\<close>

lemma fst_foldl_filter_step:
  "fst (foldl filter_step (acc, sk) ls) = acc @ filter_rest sk ls"
  by (induction ls arbitrary: acc sk) (simp_all add: filter_step_def Let_def)

lemma filter_ok_tests_rest: "filter_ok_tests ls = filter_rest False ls"
  by (simp add: filter_ok_tests_def fst_foldl_filter_step)

lemma filter_rest_no_ok:
  "l \<in> set (filter_rest sk ls) \<Longrightarrow> re_match pat_ok_line (strip l) = None"
  by (induction ls arbitrary: sk) (auto split: if_splits)

lemma filter_rest_fixed:
  "\<forall>l\<in>set ls. re_match pat_ok_line (strip l) = None \<Longrightarrow> filter_rest False ls = ls"
  by (induction ls) auto

lemma subseq_filter_rest: "subseq (filter_rest sk ls) ls"
  by (induction ls arbitrary: sk) auto

text \<open>
  C6. \<open>filter_ok_tests\<close> is idempotent: filtering a filtered list changes nothing.
\<close>

theorem filter_ok_tests_idempotent:
  "filter_ok_tests (filter_ok_tests ls) = filter_ok_tests ls"
  unfolding filter_ok_tests_rest
  by (rule filter_rest_fixed) (auto dest: filter_rest_no_ok)

text \<open>
  C9. The output of \<open>filter_ok_tests\<close> is a subsequence of its input (the kept lines, in
  their order), and no kept line, once trimmed, matches the passing pattern
  \<^verbatim>\<open>ok\s+\d+\s*-\<close>.
\<close>

theorem filter_ok_tests_subseq:
  "subseq (filter_ok_tests ls) ls \<and>
   (\<forall>l\<in>set (filter_ok_tests ls). re_match pat_ok_line (strip l) = None)"
  unfolding filter_ok_tests_rest
  by (auto simp: subseq_filter_rest dest: filter_rest_no_ok)

lemma filter_ok_tests_example:
  "filter_ok_tests [''TEST: a'', ''ok 1 - x'', ''  chatter'', ''not ok 2 - y'', ''more''] =
     [''TEST: a'', ''not ok 2 - y'', ''more'']"
  by (simp add: filter_ok_tests_def filter_step_def re_match_def pat_ok_line_def
      pat_notok_line_def lit_def strip_def isspace_def isdigit_def)

theorem filter_ok_tests_subseq_witness:
  "subseq [''TEST: a'', ''not ok 2 - y'', ''more'']
          [''TEST: a'', ''ok 1 - x'', ''  chatter'', ''not ok 2 - y'', ''more''] \<and>
   re_match pat_ok_line (strip ''not ok 2 - y'') = None"
  using filter_ok_tests_subseq
          [of "[''TEST: a'', ''ok 1 - x'', ''  chatter'', ''not ok 2 - y'', ''more'']"]
  by (simp add: filter_ok_tests_example)

section \<open>The report of a compared suite\<close>

text \<open>
  C2 (as stated, refuted). The claim has the noise lines in the report and the text
  \<^verbatim>\<open>No meaningful test differences.\<close> only when both partitions are empty. With the
  single change \<^verbatim>\<open>error: timeout\<close> the noise partition holds that line, and the
  report is the text alone.
\<close>

theorem write_changes_noise_counterexample:
  "filter is_noise_change [''error: timeout''] = [''error: timeout''] \<and>
   write_changes [''error: timeout''] = ''No meaningful test differences.\<newline>\<newline>''"
  by code_simp

text \<open>
  The lines of a text that ends every line with \<^verbatim>\<open>\n\<close>: a piece without line
  boundaries followed by \<^verbatim>\<open>\n\<close> is one line of the result.
\<close>

lemma split_acc_line:
  assumes "\<forall>x\<in>set l. \<not> is_linebreak x"
  shows "split_acc acc (l @ CHR 0x0A # rest) = (rev acc @ l) # split_acc [] rest"
  using assms
proof (induction l arbitrary: acc)
  case Nil
  have "is_linebreak CHR 0x0A" by (simp add: is_linebreak_def)
  then show ?case by (cases rest) simp_all
next
  case (Cons x l)
  have x: "\<not> is_linebreak x" and l: "\<forall>x\<in>set l. \<not> is_linebreak x"
    using Cons.prems by simp_all
  have "is_linebreak CHR 0x0D" by (simp add: is_linebreak_def)
  with x have nx: "x \<noteq> CHR 0x0D" by blast
  obtain d cs where dcs: "l @ CHR 0x0A # rest = d # cs"
    by (cases "l @ CHR 0x0A # rest") simp_all
  have "split_acc acc (x # d # cs) = split_acc (x # acc) (d # cs)"
    using x nx by simp
  then have "split_acc acc (x # l @ CHR 0x0A # rest) = split_acc (x # acc) (l @ CHR 0x0A # rest)"
    by (simp only: dcs)
  also have "\<dots> = (rev (x # acc) @ l) # split_acc [] rest"
    using l by (rule Cons.IH)
  finally show ?case by simp
qed

lemma splitlines_entries:
  assumes "\<forall>c\<in>set cs. \<forall>x\<in>set c. \<not> is_linebreak x"
  shows "split_acc [] (concat (map (\<lambda>c. ''   - '' @ c @ ''\<newline>'') cs) @ ''\<newline>'') =
           map (\<lambda>c. ''   - '' @ c) cs @ [[]]"
  using assms
proof (induction cs)
  case Nil
  show ?case by (simp add: is_linebreak_def)
next
  case (Cons c cs)
  have nl: "\<forall>x\<in>set (''   - '' @ c). \<not> is_linebreak x"
    using Cons.prems by (auto simp: is_linebreak_def)
  have rest: "\<forall>c\<in>set cs. \<forall>x\<in>set c. \<not> is_linebreak x" using Cons.prems by simp
  let ?rest = "concat (map (\<lambda>c. ''   - '' @ c @ ''\<newline>'') cs) @ ''\<newline>''"
  have "split_acc [] ((''   - '' @ c) @ CHR 0x0A # ?rest) =
          (rev [] @ (''   - '' @ c)) # split_acc [] ?rest"
    using nl by (rule split_acc_line)
  with Cons.IH [OF rest] show ?case by simp
qed

lemma splitlines_header:
  "split_acc [] (''Real semantic changes:'' @ CHR 0x0A # rest) =
     ''Real semantic changes:'' # split_acc [] rest"
proof -
  have "\<forall>x\<in>set ''Real semantic changes:''. \<not> is_linebreak x"
    by (simp add: is_linebreak_def)
  then have "split_acc [] (''Real semantic changes:'' @ CHR 0x0A # rest) =
     (rev [] @ ''Real semantic changes:'') # split_acc [] rest"
    by (rule split_acc_line)
  then show ?thesis by simp
qed

lemma splitlines_no_changes:
  "splitlines ''No meaningful test differences.\<newline>\<newline>'' = [''No meaningful test differences.'', []]"
  by code_simp

text \<open>
  C2 (amended). The report of a compared suite lists the real changes only. When some
  change is real, the report is the heading \<^verbatim>\<open>Real semantic changes:\<close>, then one
  entry \<^verbatim>\<open>   - c\<close> for every real change \<^verbatim>\<open>c\<close>, in order, then an empty line; the
  noise lines are computed and never written, so the report is that of the real changes
  alone. The text \<^verbatim>\<open>No meaningful test differences.\<close> is written exactly when no change
  is real, whether or not there are noise lines. Read back line by line (the changes
  holding no line boundary), the report is the heading, the entries of the real changes
  and an empty line, or the text and an empty line.
\<close>

theorem write_changes_real_only:
  "write_changes changes =
     (if filter (\<lambda>c. \<not> is_noise_change c) changes = []
      then ''No meaningful test differences.\<newline>\<newline>''
      else ''Real semantic changes:\<newline>'' @
           concat (map (\<lambda>c. ''   - '' @ c @ ''\<newline>'') (filter (\<lambda>c. \<not> is_noise_change c) changes)) @
           ''\<newline>'') \<and>
   write_changes changes = write_changes (filter (\<lambda>c. \<not> is_noise_change c) changes) \<and>
   (write_changes changes = ''No meaningful test differences.\<newline>\<newline>'' \<longleftrightarrow>
      filter (\<lambda>c. \<not> is_noise_change c) changes = []) \<and>
   ((\<forall>c\<in>set changes. \<forall>x\<in>set c. \<not> is_linebreak x) \<longrightarrow>
      splitlines (write_changes changes) =
        (if filter (\<lambda>c. \<not> is_noise_change c) changes = []
         then [''No meaningful test differences.'', []]
         else ''Real semantic changes:'' #
              map (\<lambda>c. ''   - '' @ c) (filter (\<lambda>c. \<not> is_noise_change c) changes) @ [[]]))"
proof -
  let ?real = "filter (\<lambda>c. \<not> is_noise_change c) changes"
  let ?entries = "concat (map (\<lambda>c. ''   - '' @ c @ ''\<newline>'') ?real)"
  have eq: "write_changes changes =
     (if ?real = [] then ''No meaningful test differences.\<newline>\<newline>''
      else ''Real semantic changes:\<newline>'' @ ?entries @ ''\<newline>'')"
    by (simp add: write_changes_def Let_def)
  have indep: "write_changes changes = write_changes ?real"
    by (simp add: write_changes_def Let_def)
  have iff: "write_changes changes = ''No meaningful test differences.\<newline>\<newline>'' \<longleftrightarrow> ?real = []"
    by (simp add: write_changes_def Let_def)
  have lines: "splitlines (write_changes changes) =
        (if ?real = [] then [''No meaningful test differences.'', []]
         else ''Real semantic changes:'' # map (\<lambda>c. ''   - '' @ c) ?real @ [[]])"
    if nl: "\<forall>c\<in>set changes. \<forall>x\<in>set c. \<not> is_linebreak x"
  proof (cases "?real = []")
    case True
    with eq have "write_changes changes = ''No meaningful test differences.\<newline>\<newline>''"
      by simp
    with True show ?thesis by (simp add: splitlines_no_changes)
  next
    case False
    from nl have nl': "\<forall>c\<in>set ?real. \<forall>x\<in>set c. \<not> is_linebreak x" by auto
    from eq False have "write_changes changes =
        ''Real semantic changes:'' @ CHR 0x0A # (?entries @ ''\<newline>'')"
      by simp
    then have "splitlines (write_changes changes) =
        ''Real semantic changes:'' # split_acc [] (?entries @ ''\<newline>'')"
      by (simp only: splitlines_def splitlines_header)
    also have "split_acc [] (?entries @ ''\<newline>'') = map (\<lambda>c. ''   - '' @ c) ?real @ [[]]"
      using nl' by (rule splitlines_entries)
    finally show ?thesis using False by (simp only: if_False)
  qed
  from eq indep iff lines show ?thesis by blast
qed

text \<open>A list of changes with two noise lines and two real ones.\<close>

lemma write_changes_example:
  "filter (\<lambda>c. \<not> is_noise_change c)
     [''error: timeout'', ''TEST: login failed'', ''  '', ''TEST: logout (difflib=0.50)''] =
   [''TEST: login failed'', ''TEST: logout (difflib=0.50)'']"
  by code_simp

theorem write_changes_real_only_witness:
  "write_changes [''error: timeout'', ''TEST: login failed'', ''  '', ''TEST: logout (difflib=0.50)''] =
     ''Real semantic changes:\<newline>   - TEST: login failed\<newline>   - TEST: logout (difflib=0.50)\<newline>\<newline>'' \<and>
   splitlines (write_changes
      [''error: timeout'', ''TEST: login failed'', ''  '', ''TEST: logout (difflib=0.50)'']) =
     [''Real semantic changes:'', ''   - TEST: login failed'',
      ''   - TEST: logout (difflib=0.50)'', []]"
proof -
  let ?cs = "[''error: timeout'', ''TEST: login failed'', ''  '', ''TEST: logout (difflib=0.50)'']"
  let ?real = "filter (\<lambda>c. \<not> is_noise_change c) ?cs"
  have nl: "\<forall>c\<in>set ?cs. \<forall>x\<in>set c. \<not> is_linebreak x"
    by (simp add: is_linebreak_def)
  from write_changes_real_only [of ?cs] nl
  have a: "write_changes ?cs =
     (if ?real = [] then ''No meaningful test differences.\<newline>\<newline>''
      else ''Real semantic changes:\<newline>'' @
           concat (map (\<lambda>c. ''   - '' @ c @ ''\<newline>'') ?real) @ ''\<newline>'')"
    and b: "splitlines (write_changes ?cs) =
        (if ?real = [] then [''No meaningful test differences.'', []]
         else ''Real semantic changes:'' # map (\<lambda>c. ''   - '' @ c) ?real @ [[]])"
    by blast+
  from a [unfolded write_changes_example] b [unfolded write_changes_example]
  show ?thesis by simp
qed

section \<open>The section parser\<close>

text \<open>
  C10. On the line \<^verbatim>\<open>- Test results:\<close> the pattern with the capture group finds
  nothing, the text before the marker is empty, and the suite is filed under the empty
  name; a suite that was open before that line is committed first.
\<close>

theorem parse_empty_suite_name:
  "re_search pat_old ''- Test results:'' = None \<and>
   strip (split_first ''- Test results:'' ''- Test results:'') = [] \<and>
   parse_log_sections ''- Test results:'' = [([], [])] \<and>
   parse_log_sections
     ''Login - Test results:\<newline>TEST: login\<newline>- Test results:\<newline>tail'' =
     [(''Login'', [''TEST: login'']), ([], [''tail''])]"
  by code_simp

section \<open>The change detector\<close>

lemma clean_lines_id:
  "\<forall>ln\<in>set lns. ln \<noteq> [] \<and> strip ln = ln \<Longrightarrow> clean_lines lns = lns"
  by (induction lns) (auto simp: clean_lines_def)

lemma strip_examples:
  "strip ''TEST: login succeeds'' = ''TEST: login succeeds''"
  "strip ''not ok 1 - login'' = ''not ok 1 - login''"
  by code_simp+

text \<open>
  C5. With an empty baseline, current lines that are already trimmed and not empty come
  back unchanged and in their order.
\<close>

theorem compare_sections_empty_baseline:
  assumes "\<forall>ln\<in>set new_lines. ln \<noteq> [] \<and> strip ln = ln"
  shows "compare_sections cos_sim ratio [] new_lines threshold_main threshold_fallback
           difflib_cutoff = new_lines"
  using clean_lines_id [OF assms] by (simp add: compare_sections_def clean_lines_def)

theorem compare_sections_empty_baseline_witness:
  "compare_sections (const_sim 1) exact_ratio [] [''TEST: login succeeds'', ''not ok 1 - login'']
     (88 / 100) (85 / 100) (87 / 100) = [''TEST: login succeeds'', ''not ok 1 - login'']"
  using compare_sections_empty_baseline
    [of "[''TEST: login succeeds'', ''not ok 1 - login'']" "const_sim 1" exact_ratio
        "88 / 100" "85 / 100" "87 / 100"]
  by (simp add: strip_examples)

lemma row_max_inv:
  assumes "row = pre @ xs" "length pre = j" "bi < j" "row ! bi = b" "\<forall>i<j. row ! i \<le> b"
  shows "case row_max (b, bi) j xs of (s, k) \<Rightarrow>
           k < length row \<and> row ! k = s \<and> (\<forall>i<length row. row ! i \<le> s)"
  using assms
proof (induction xs arbitrary: pre j b bi)
  case Nil
  then show ?case by simp
next
  case (Cons x xs)
  let ?b' = "if b < x then x else b"
  let ?bi' = "if b < x then j else bi"
  have 1: "row = (pre @ [x]) @ xs" using Cons.prems(1) by simp
  have 2: "length (pre @ [x]) = Suc j" using Cons.prems(2) by simp
  have 3: "?bi' < Suc j" using Cons.prems(3) by simp
  have xj: "row ! j = x" using Cons.prems(1,2) by (simp add: nth_append)
  have 4: "row ! ?bi' = ?b'" using Cons.prems(4) xj by simp
  have 5: "\<forall>i<Suc j. row ! i \<le> ?b'"
  proof (intro allI impI)
    fix i assume "i < Suc j"
    then consider "i < j" | "i = j" by linarith
    then show "row ! i \<le> ?b'"
    proof cases
      case 1
      with Cons.prems(5) have "row ! i \<le> b" by simp
      then show ?thesis by simp
    next
      case 2
      with xj show ?thesis by simp
    qed
  qed
  have "row_max (b, bi) j (x # xs) = row_max (?b', ?bi') (Suc j) xs"
    by simp
  with Cons.IH [OF 1 2 3 4 5] show ?case by simp
qed

lemma torch_max_props:
  assumes "row \<noteq> []"
  shows "snd (torch_max row) < length row \<and> row ! snd (torch_max row) = fst (torch_max row) \<and>
         (\<forall>i<length row. row ! i \<le> fst (torch_max row))"
proof -
  obtain x xs where r: "row = x # xs" using assms by (cases row) auto
  have "case row_max (x, 0) 1 xs of (s, k) \<Rightarrow>
           k < length row \<and> row ! k = s \<and> (\<forall>i<length row. row ! i \<le> s)"
    by (rule row_max_inv [where pre = "[x]"]) (simp_all add: r)
  then show ?thesis by (simp add: r split: prod.splits)
qed

lemma foldl_append_each:
  "(\<And>acc i. i \<in> set is \<Longrightarrow> f acc i = acc @ g i) \<Longrightarrow> foldl f acc is = acc @ concat (map g is)"
  by (induction "is" arbitrary: acc) simp_all


lemma compare_step_append:
  "compare_step ratio tm tf dc old_lines new_lines maxes changes i =
     changes @ compare_step ratio tm tf dc old_lines new_lines maxes [] i"
  by (simp add: compare_step_def Let_def)

lemma compare_sections_loop:
  assumes "clean_lines old0 \<noteq> []" and "clean_lines new0 \<noteq> []"
  shows "compare_sections cos_sim ratio old0 new0 tm tf dc =
     concat (map (\<lambda>i. compare_step ratio tm tf dc (clean_lines old0) (clean_lines new0)
                         (map torch_max (map (\<lambda>i. map (\<lambda>j. cos_sim (clean_lines new0) (clean_lines old0) i j)
                                      [0..<length (clean_lines old0)])
                           [0..<length (clean_lines new0)])) [] i)
                 [0..<length (clean_lines new0)])"
proof -
  have "foldl (compare_step ratio tm tf dc (clean_lines old0) (clean_lines new0) mx) [] is =
        [] @ concat (map (compare_step ratio tm tf dc (clean_lines old0) (clean_lines new0) mx []) is)"
    for mx "is"
    by (rule foldl_append_each) (rule compare_step_append)
  then show ?thesis
    using assms by (simp add: compare_sections_def Let_def)
qed

lemma clean_lines_examples:
  "clean_lines [''error: timeout''] = [''error: timeout'']"
  "clean_lines [''error: refused''] = [''error: refused'']"
  "clean_lines [''TEST: build passes'', ''ok 1 - build''] = [''TEST: build passes'', ''ok 1 - build'']"
  by code_simp+

text \<open>
  C1 (as stated, refuted). The claim has a line whose best score lies between the
  fallback threshold 0.85 and the main threshold 0.88 dropped. A line with best score
  0.86 takes the first branch (\<open>score < threshold_main\<close>) and is reported.
\<close>

theorem compare_sections_dead_zone_counterexample:
  "fst (torch_max [const_sim (86 / 100) [''TEST: build fails''] [''TEST: build passes''] 0 0]) = 86 / 100 \<and>
   compare_sections (const_sim (86 / 100)) exact_ratio [''TEST: build passes'']
     [''TEST: build fails''] (88 / 100) (85 / 100) (87 / 100) = [''TEST: build fails'']"
  by code_simp

text \<open>
  C1 (amended). When the fallback threshold is below the main threshold, as with the
  defaults, it plays no part: a current line whose best score is below the main
  threshold is reported as it is (this covers every score between the two thresholds),
  any other line is reported, with its ratio, exactly when the textual ratio with the
  best baseline line is below the cutoff, and is dropped otherwise.
\<close>

theorem compare_sections_no_dead_zone:
  assumes "threshold_fallback < threshold_main"
  shows "compare_sections cos_sim ratio old_lines0 new_lines0 threshold_main threshold_fallback
           difflib_cutoff =
     (let old_lines = clean_lines old_lines0; new_lines = clean_lines new_lines0 in
      if old_lines = [] \<or> new_lines = [] then new_lines
      else concat (map (\<lambda>i.
             let best = torch_max (map (cos_sim new_lines old_lines i) [0..<length old_lines]);
                 r = ratio (new_lines ! i) (old_lines ! snd best)
             in if fst best < threshold_main then [new_lines ! i]
                else if r < difflib_cutoff then [new_lines ! i @ '' (difflib='' @ fmt2 r @ '')'']
                else [])
           [0..<length new_lines]))"
proof (cases "clean_lines old_lines0 = [] \<or> clean_lines new_lines0 = []")
  case True
  then show ?thesis by (auto simp: compare_sections_def Let_def)
next
  case False
  then have ne: "clean_lines old_lines0 \<noteq> []" "clean_lines new_lines0 \<noteq> []" by auto
  show ?thesis
    unfolding compare_sections_loop [OF ne]
    using False assms
    by (auto simp: Let_def compare_step_def intro!: arg_cong [where f = concat])
qed


theorem compare_sections_no_dead_zone_witness:
  "compare_sections (const_sim (87 / 100)) exact_ratio [''error: timeout''] [''error: refused'']
     (88 / 100) (85 / 100) (87 / 100) = [''error: refused'']"
  using compare_sections_no_dead_zone
    [of "85 / 100" "88 / 100" "const_sim (87 / 100)" exact_ratio "[''error: timeout'']"
        "[''error: refused'']" "87 / 100"]
  by (simp add: clean_lines_examples const_sim_def)

text \<open>
  C7 (as stated, refuted). The claim has identical inputs give no change for every list
  of lines. When the similarity oracle rates two different lines as high as a line and
  its own copy (as a model that ignores letter case does), the first of them is the best
  match, and the textual check reports the line.
\<close>

theorem compare_sections_identical_counterexample:
  "compare_sections (const_sim 1) exact_ratio [''ab'', ''AB''] [''ab'', ''AB'']
     (88 / 100) (85 / 100) (87 / 100) = [''AB (difflib=0.00)'']"
  by code_simp

text \<open>
  C7 (amended). Identical inputs give no change when the oracle scores every line
  against its own copy at the main threshold or more, scores every different line
  strictly lower than the copy, and the textual ratio of a line with itself reaches the
  cutoff.
\<close>

theorem compare_sections_identical:
  assumes self: "\<forall>i<length (clean_lines xs). threshold_main \<le> cos_sim (clean_lines xs) (clean_lines xs) i i"
    and strict: "\<forall>i<length (clean_lines xs). \<forall>j<length (clean_lines xs).
                   clean_lines xs ! j \<noteq> clean_lines xs ! i \<longrightarrow>
                   cos_sim (clean_lines xs) (clean_lines xs) i j < cos_sim (clean_lines xs) (clean_lines xs) i i"
    and refl: "\<forall>x\<in>set (clean_lines xs). difflib_cutoff \<le> ratio x x"
  shows "compare_sections cos_sim ratio xs xs threshold_main threshold_fallback difflib_cutoff = []"
proof (cases "clean_lines xs = []")
  case True
  then show ?thesis by (simp add: compare_sections_def)
next
  case False
  define X where "X = clean_lines xs"
  have ne: "X \<noteq> []" using False by (simp add: X_def)
  have step: "compare_step ratio threshold_main threshold_fallback difflib_cutoff X X
                (map torch_max (map (\<lambda>i. map (\<lambda>j. cos_sim X X i j) [0..<length X]) [0..<length X])) [] i = []"
    if i: "i < length X" for i
  proof -
    let ?row = "map (\<lambda>j. cos_sim X X i j) [0..<length X]"
    have rne: "?row \<noteq> []" using ne by simp
    from torch_max_props [OF rne]
    have k: "snd (torch_max ?row) < length X"
      and v: "?row ! snd (torch_max ?row) = fst (torch_max ?row)"
      and m: "\<forall>j<length X. ?row ! j \<le> fst (torch_max ?row)"
      by simp_all
    let ?k = "snd (torch_max ?row)"
    have v': "cos_sim X X i ?k = fst (torch_max ?row)" using v k by simp
    have "cos_sim X X i i \<le> fst (torch_max ?row)" using m i by simp
    moreover have "threshold_main \<le> cos_sim X X i i" using self i by (simp add: X_def)
    ultimately have big: "\<not> fst (torch_max ?row) < threshold_main"
      and ge: "cos_sim X X i i \<le> cos_sim X X i ?k"
      using v' by simp_all
    have "X ! ?k = X ! i"
    proof (rule ccontr)
      assume "X ! ?k \<noteq> X ! i"
      with strict i k have "cos_sim X X i ?k < cos_sim X X i i" by (simp add: X_def)
      with ge show False by simp
    qed
    moreover have "difflib_cutoff \<le> ratio (X ! i) (X ! i)"
      using refl i by (simp add: X_def)
    ultimately have "\<not> ratio (X ! i) (X ! ?k) < difflib_cutoff" by simp
    with big i show ?thesis by (simp add: compare_step_def Let_def)
  qed
  have "compare_sections cos_sim ratio xs xs threshold_main threshold_fallback difflib_cutoff =
        concat (map (\<lambda>i. compare_step ratio threshold_main threshold_fallback difflib_cutoff X X
                (map torch_max (map (\<lambda>i. map (\<lambda>j. cos_sim X X i j) [0..<length X]) [0..<length X])) [] i)
                 [0..<length X])"
    unfolding X_def by (rule compare_sections_loop) (use False in simp_all)
  also have "\<dots> = []" using step by simp
  finally show ?thesis .
qed

theorem compare_sections_identical_witness:
  "compare_sections exact_sim exact_ratio [''TEST: build passes'', ''ok 1 - build'']
     [''TEST: build passes'', ''ok 1 - build''] (88 / 100) (85 / 100) (87 / 100) = []"
  using compare_sections_identical
    [of "[''TEST: build passes'', ''ok 1 - build'']" "88 / 100" exact_sim "87 / 100" exact_ratio
        "85 / 100"]
  by (simp add: clean_lines_examples exact_sim_def exact_ratio_def All_less_Suc numeral_2_eq_2)


section \<open>The suite aligner\<close>

lemma sort_not_Nil:
  fixes ys :: "('a::linorder) list"
  assumes "ys \<noteq> []"
  shows "sort ys \<noteq> []"
proof
  assume "sort ys = []"
  then have "length (sort ys) = 0" by simp
  then have "length ys = 0" by (simp only: length_sort)
  with assms show False by simp
qed

lemma best_of_sorted:
  fixes ys :: "('a::linorder) list"
  assumes "ys \<noteq> []"
  shows "hd (rev (sort ys)) \<in> set ys \<and> (\<forall>y\<in>set ys. y \<le> hd (rev (sort ys)))"
proof -
  have ne: "sort ys \<noteq> []" using assms by (rule sort_not_Nil)
  have h: "hd (rev (sort ys)) = last (sort ys)" by (rule hd_rev)
  from ne have "last (sort ys) \<in> set (sort ys)" by (rule last_in_set)
  then have mem: "last (sort ys) \<in> set ys" by (simp only: set_sort)
  have "y \<le> last (sort ys)" if "y \<in> set ys" for y
  proof -
    from that have "y \<in> set (sort ys)" by (simp only: set_sort)
    then obtain i where i: "i < length (sort ys)" and yi: "y = sort ys ! i"
      unfolding in_set_conv_nth by blast
    have s: "sorted (sort ys)" by (rule sorted_sort)
    have l: "last (sort ys) = sort ys ! (length (sort ys) - 1)"
      using ne by (rule last_conv_nth)
    have "i \<le> length (sort ys) - 1" "length (sort ys) - 1 < length (sort ys)"
      using i by linarith+
    with s show ?thesis unfolding yi l by (rule sorted_nth_mono)
  qed
  with mem show ?thesis unfolding h by blast
qed


lemma get_close_matches_none:
  assumes "\<forall>c\<in>set ps. ratio c word < cutoff"
  shows "get_close_matches ratio word ps n cutoff = []"
proof -
  from assms have "filter (\<lambda>x. cutoff \<le> ratio x word) ps = []"
    unfolding filter_empty_conv by (simp add: not_le)
  then show ?thesis unfolding get_close_matches_def by simp
qed

lemma get_close_matches_best:
  assumes "\<exists>c\<in>set ps. cutoff \<le> ratio c word"
  shows "get_close_matches ratio word ps (Suc 0) cutoff =
     [snd (hd (rev (sort (map (\<lambda>x. (ratio x word, x)) (filter (\<lambda>x. cutoff \<le> ratio x word) ps)))))]"
proof -
  define ys where "ys = map (\<lambda>x. (ratio x word, x)) (filter (\<lambda>x. cutoff \<le> ratio x word) ps)"
  from assms have "filter (\<lambda>x. cutoff \<le> ratio x word) ps \<noteq> []"
    unfolding filter_empty_conv by blast
  then have "ys \<noteq> []" unfolding ys_def by simp
  then have "sort ys \<noteq> []" by (rule sort_not_Nil)
  then have "rev (sort ys) \<noteq> []" by simp
  then obtain z zs where z: "rev (sort ys) = z # zs" by (cases "rev (sort ys)") blast+
  have "get_close_matches ratio word ps (Suc 0) cutoff = map snd (take (Suc 0) (rev (sort ys)))"
    unfolding get_close_matches_def ys_def ..
  also have "\<dots> = [snd (hd (rev (sort ys)))]" unfolding z by simp
  finally show ?thesis unfolding ys_def .
qed


text \<open>
  C4. A suite name that is a key of the baseline index is matched exactly, whatever the
  ratios are. Otherwise, when no baseline name reaches the ratio 0.6 there is no match,
  and when one does the match is fuzzy, with a baseline name whose ratio is at least 0.6
  and not below the ratio of any other baseline name.
\<close>

theorem align_policy:
  "(name \<in> set (map fst idx) \<longrightarrow> align ratio name idx = Exact name) \<and>
   (name \<notin> set (map fst idx) \<and> (\<forall>c\<in>set (map fst idx). ratio c name < 6 / 10) \<longrightarrow>
      align ratio name idx = NoMatch) \<and>
   (name \<notin> set (map fst idx) \<and> (\<exists>c\<in>set (map fst idx). 6 / 10 \<le> ratio c name) \<longrightarrow>
      (\<exists>m. align ratio name idx = Fuzzy m \<and> m \<in> set (map fst idx) \<and> 6 / 10 \<le> ratio m name \<and>
           (\<forall>c\<in>set (map fst idx). ratio c name \<le> ratio m name)))"
proof (intro conjI impI)
  assume "name \<in> set (map fst idx)"
  then show "align ratio name idx = Exact name" unfolding align_def by (simp only: if_True)
next
  assume a: "name \<notin> set (map fst idx) \<and> (\<forall>c\<in>set (map fst idx). ratio c name < 6 / 10)"
  then have "get_close_matches ratio name (map fst idx) 1 (6 / 10) = []"
    by (intro get_close_matches_none) blast
  with a show "align ratio name idx = NoMatch"
    unfolding align_def by (simp only: if_False list.case)
next
  assume a: "name \<notin> set (map fst idx) \<and> (\<exists>c\<in>set (map fst idx). 6 / 10 \<le> ratio c name)"
  define ps where "ps = map fst idx"
  define ys where "ys = map (\<lambda>x. (ratio x name, x)) (filter (\<lambda>x. 6 / 10 \<le> ratio x name) ps)"
  define b where "b = hd (rev (sort ys))"
  from a have ex: "\<exists>c\<in>set ps. 6 / 10 \<le> ratio c name" and nin: "name \<notin> set ps"
    unfolding ps_def by blast+
  from ex have "filter (\<lambda>x. 6 / 10 \<le> ratio x name) ps \<noteq> []"
    unfolding filter_empty_conv by blast
  then have ne: "ys \<noteq> []" unfolding ys_def by simp
  from best_of_sorted [OF ne] have bin: "b \<in> set ys" and bmax: "\<forall>y\<in>set ys. y \<le> b"
    unfolding b_def by blast+
  from bin obtain m where m: "m \<in> set ps" "6 / 10 \<le> ratio m name" "b = (ratio m name, m)"
    unfolding ys_def by auto
  have "get_close_matches ratio name ps (Suc 0) (6 / 10) = [snd b]"
    unfolding b_def ys_def using ex by (rule get_close_matches_best)
  then have g: "get_close_matches ratio name (map fst idx) 1 (6 / 10) = [m]"
    unfolding ps_def One_nat_def m(3) by simp
  have al: "align ratio name idx = Fuzzy m"
    unfolding align_def g using nin unfolding ps_def by (simp only: if_False list.case)
  have "ratio c name \<le> ratio m name" if c: "c \<in> set ps" for c
  proof (cases "6 / 10 \<le> ratio c name")
    case True
    with c have "(ratio c name, c) \<in> set ys" unfolding ys_def by simp
    with bmax have "(ratio c name, c) \<le> (ratio m name, m)" unfolding m(3) by blast
    then show ?thesis unfolding less_eq_prod_def by auto
  next
    case False
    with m(2) show ?thesis by linarith
  qed
  with al m(1,2) show "\<exists>m. align ratio name idx = Fuzzy m \<and> m \<in> set (map fst idx) \<and>
      6 / 10 \<le> ratio m name \<and> (\<forall>c\<in>set (map fst idx). ratio c name \<le> ratio m name)"
    unfolding ps_def by blast
qed


theorem align_policy_witness:
  "align name_ratio ''Build'' [(''Login-Tests'', []), (''Build'', [])] = Exact ''Build'' \<and>
   align name_ratio ''Deploy'' [(''Login-Tests'', []), (''Build'', [])] = NoMatch \<and>
   (\<exists>m. align name_ratio ''Login_Tests'' [(''Login-Tests'', []), (''Build'', [])] = Fuzzy m \<and>
        6 / 10 \<le> name_ratio m ''Login_Tests'')"
proof -
  let ?idx = "[(''Login-Tests'', []), (''Build'', [])] :: (string \<times> string list) list"
  have k: "map fst ?idx = [''Login-Tests'', ''Build'']" by simp
  have h1: "''Build'' \<in> set (map fst ?idx)" unfolding k by simp
  have r2: "name_ratio ''Login-Tests'' ''Deploy'' = 0" "name_ratio ''Build'' ''Deploy'' = 0"
    unfolding name_ratio_def by simp_all
  have h2: "''Deploy'' \<notin> set (map fst ?idx) \<and>
            (\<forall>c\<in>set (map fst ?idx). name_ratio c ''Deploy'' < 6 / 10)"
    unfolding k by (simp add: r2)
  have r3: "name_ratio ''Login-Tests'' ''Login_Tests'' = 9 / 10"
    unfolding name_ratio_def by simp
  have h3: "''Login_Tests'' \<notin> set (map fst ?idx) \<and>
            (\<exists>c\<in>set (map fst ?idx). 6 / 10 \<le> name_ratio c ''Login_Tests'')"
    unfolding k by (simp add: r3)
  from align_policy [of "''Build''" ?idx name_ratio] h1
  have c1: "align name_ratio ''Build'' ?idx = Exact ''Build''" by blast
  from align_policy [of "''Deploy''" ?idx name_ratio] h2
  have c2: "align name_ratio ''Deploy'' ?idx = NoMatch" by blast
  from align_policy [of "''Login_Tests''" ?idx name_ratio] h3
  have c3: "\<exists>m. align name_ratio ''Login_Tests'' ?idx = Fuzzy m \<and>
                6 / 10 \<le> name_ratio m ''Login_Tests''" by blast
  from c1 c2 c3 show ?thesis by blast
qed


section \<open>Properties of the section parser on failure records\<close>

text \<open>
  The greedy quantifiers of the matcher: on a run of characters of the class that is
  followed by a character outside the class (or by the end of the text), the longest
  repetition is tried first, so when the rest of the pattern matches after the whole
  run, that is the match.
\<close>

lemma re_here_One:
  "re_here ((g, One, cl) # its) (c # s) =
     (if cls_match cl c then
        (case re_here its s of None \<Rightarrow> None | Some cap \<Rightarrow> Some ((if g then [c] else []) @ cap))
      else None)"
  by (simp add: Let_def split: option.splits)

lemma takeWhile_run:
  assumes "\<forall>c\<in>set run. P c" and "rest = [] \<or> \<not> P (hd rest)"
  shows "takeWhile P (run @ rest) = run"
proof -
  have "takeWhile P rest = []" using assms(2) by (cases rest) auto
  with assms(1) show ?thesis by (simp add: takeWhile_append2)
qed

lemma first_some_hit: "f x = Some y \<Longrightarrow> first_some f (x # xs) = Some y"
  by simp

lemma rev_upt_Suc: "lo \<le> n \<Longrightarrow> rev [lo..<Suc n] = n # rev [lo..<n]"
  by simp

lemma re_here_greedy:
  assumes run: "\<forall>c\<in>set run. cls_match cl c"
    and rest: "rest = [] \<or> \<not> cls_match cl (hd rest)"
    and q: "q = Star \<or> (q = Plus \<and> run \<noteq> [])"
    and tail: "re_here its rest = Some cap"
  shows "re_here ((g, q, cl) # its) (run @ rest) = Some ((if g then run else []) @ cap)"
proof -
  let ?n = "length run"
  let ?f = "\<lambda>k. case re_here its (drop k (run @ rest)) of
                    None \<Rightarrow> None
                  | Some cap \<Rightarrow> Some ((if g then take k (run @ rest) else []) @ cap)"
  have n: "length (takeWhile (cls_match cl) (run @ rest)) = ?n"
    using takeWhile_run [OF run rest] by simp
  have hit: "?f ?n = Some ((if g then run else []) @ cap)"
    using tail by simp
  from q obtain lo where lo: "lo \<le> ?n"
    and lens: "(case q of One \<Rightarrow> (if 0 < ?n then [1] else [])
                        | Star \<Rightarrow> rev [0..<Suc ?n]
                        | Plus \<Rightarrow> rev [1..<Suc ?n]) = rev [lo..<Suc ?n]"
  proof (elim disjE conjE)
    assume "q = Star"
    then show ?thesis by (intro that [of 0]) simp_all
  next
    assume "q = Plus" "run \<noteq> []"
    then have "1 \<le> ?n" by (cases run) simp_all
    with \<open>q = Plus\<close> show ?thesis by (intro that [of 1]) simp_all
  qed
  have "re_here ((g, q, cl) # its) (run @ rest) = first_some ?f (rev [lo..<Suc ?n])"
    unfolding re_here.simps n Let_def lens ..
  also have "\<dots> = first_some ?f (?n # rev [lo..<?n])"
    using lo by (simp only: rev_upt_Suc)
  also have "\<dots> = Some ((if g then run else []) @ cap)"
    using hit by (rule first_some_hit)
  finally show ?thesis .
qed


lemma isspace_not_digit: "isspace c \<Longrightarrow> \<not> isdigit c"
  by (auto simp: isspace_def isdigit_def)

lemma strip_id:
  assumes "s \<noteq> []" and "\<not> isspace (hd s)" and "\<not> isspace (last s)"
  shows "strip s = s"
proof -
  have a: "dropWhile isspace s = s" using assms(1,2) by (cases s) simp_all
  have "rev s \<noteq> []" "\<not> isspace (hd (rev s))" using assms(1,3) by (simp_all add: hd_rev)
  then have "dropWhile isspace (rev s) = rev s" by (cases "rev s") simp_all
  with a show ?thesis by (simp add: strip_def)
qed

lemma notok_match:
  assumes ws: "ws \<noteq> []" "\<forall>c\<in>set ws. isspace c"
    and ds: "ds \<noteq> []" "\<forall>c\<in>set ds. isdigit c"
    and ws': "\<forall>c\<in>set ws'. isspace c"
    and ws'': "\<forall>c\<in>set ws''. isspace c"
    and name: "name \<noteq> []" "\<forall>c\<in>set name. \<not> isspace c"
  shows "re_match pat_notok (''not ok'' @ ws @ ds @ ws' @ ''-'' @ ws'' @ name) = Some name"
proof -
  note re_here.simps [simp del]
  let ?p1 = "[(True, Plus, NonSpace)]"
  let ?p2 = "(False, Star, Space) # ?p1"
  let ?p3 = "(False, One, Lit CHR ''-'') # ?p2"
  let ?p4 = "(False, Star, Space) # ?p3"
  let ?p5 = "(False, Plus, Digit) # ?p4"
  let ?p6 = "(False, Plus, Space) # ?p5"
  let ?s3 = "CHR ''-'' # ws'' @ name"
  have hn: "\<not> isspace (hd name)" using name by (cases name) simp_all
  have hd_ds: "isdigit (hd ds)" using ds by (cases ds) simp_all
  have 0: "re_here [] [] = Some []" by (simp add: re_here.simps)
  have "re_here ?p1 (name @ []) = Some ((if True then name else []) @ [])"
    using _ _ _ 0 by (rule re_here_greedy) (use name in simp_all)
  then have 1: "re_here ?p1 name = Some name" by simp
  have "re_here ?p2 (ws'' @ name) = Some ((if False then ws'' else []) @ name)"
    using _ _ _ 1 by (rule re_here_greedy) (use ws'' hn name in simp_all)
  then have 2: "re_here ?p2 (ws'' @ name) = Some name" by simp
  have 3: "re_here ?p3 ?s3 = Some name"
    unfolding re_here_One using 2 by simp
  have nsp: "\<not> isspace CHR ''-''" by (simp add: isspace_def)
  have "re_here ?p4 (ws' @ ?s3) = Some ((if False then ws' else []) @ name)"
    using _ _ _ 3 by (rule re_here_greedy) (use ws' nsp in simp_all)
  then have 4: "re_here ?p4 (ws' @ ?s3) = Some name" by simp
  have nd: "\<not> cls_match Digit (hd (ws' @ ?s3))"
  proof (cases ws')
    case Nil
    then show ?thesis by (simp add: isdigit_def)
  next
    case (Cons a list)
    with ws' have "isspace a" by simp
    then have "\<not> isdigit a" by (rule isspace_not_digit)
    with Cons show ?thesis by simp
  qed
  have "re_here ?p5 (ds @ ws' @ ?s3) = Some ((if False then ds else []) @ name)"
    using _ _ _ 4 by (rule re_here_greedy) (use ds nd in simp_all)
  then have 5: "re_here ?p5 (ds @ ws' @ ?s3) = Some name" by simp
  have ns: "\<not> cls_match Space (hd (ds @ ws' @ ?s3))"
    using ds(1) hd_ds by (cases ds) (auto dest: isspace_not_digit)
  have "re_here ?p6 (ws @ ds @ ws' @ ?s3) = Some ((if False then ws else []) @ name)"
    using _ _ _ 5 by (rule re_here_greedy) (use ws ns in simp_all)
  then have 6: "re_here ?p6 (ws @ ds @ ws' @ ?s3) = Some name" by simp
  show ?thesis
    unfolding re_match_def pat_notok_def lit_def
    by (simp add: re_here_One 6)
qed


lemma sublist_skip_prefix:
  assumes "sub \<noteq> []" and "hd sub \<notin> set xs"
  shows "sublist sub (xs @ ys) = sublist sub ys"
  using assms(2)
proof (induction xs)
  case Nil
  show ?case by simp
next
  case (Cons x xs)
  then have "hd sub \<noteq> x" and "hd sub \<notin> set xs" by auto
  from assms(1) this(1) have "sublist sub (x # xs @ ys) = sublist sub (xs @ ys)"
    by (rule sublist_skip_head)
  with Cons.IH [OF \<open>hd sub \<notin> set xs\<close>] show ?case by simp
qed

lemma no_marker:
  assumes ws: "\<forall>c\<in>set ws. isspace c"
    and ds: "\<forall>c\<in>set ds. isdigit c"
    and ws': "\<forall>c\<in>set ws'. isspace c"
    and ws'': "\<forall>c\<in>set ws''. isspace c"
    and name: "\<forall>c\<in>set name. \<not> isspace c"
  shows "\<not> str_in ''- Test results:'' (''not ok'' @ ws @ ds @ ws' @ ''-'' @ ws'' @ name)"
proof -
  let ?m = "''- Test results:''"
  let ?t = "''Test results:''"
  have sp: "isspace CHR '' ''" by (simp add: isspace_def)
  have nsd: "\<not> isspace CHR ''-''" by (simp add: isspace_def)
  have ndd: "\<not> isdigit CHR ''-''" by (simp add: isdigit_def)
  have nsT: "\<not> isspace CHR ''T''" by (simp add: isspace_def)
  have nosp: "CHR '' '' \<notin> set name" using name sp by blast
  have nname: "\<not> sublist ?m name"
  proof
    assume "sublist ?m name"
    then have "set ?m \<subseteq> set name" by (rule set_mono_sublist)
    then have "CHR '' '' \<in> set name" by simp
    with nosp show False by contradiction
  qed
  have d1: "CHR ''-'' \<notin> set (''not ok'' @ ws @ ds @ ws')"
    using ws ds ws' nsd ndd by auto
  have d2: "CHR ''-'' \<notin> set ws''" using ws'' nsd by blast
  have a: "sublist ?m ((''not ok'' @ ws @ ds @ ws') @ (CHR ''-'' # ws'' @ name)) =
           sublist ?m (CHR ''-'' # ws'' @ name)"
    by (rule sublist_skip_prefix) (use d1 in simp_all)
  have b: "sublist ?m (ws'' @ name) = sublist ?m name"
    by (rule sublist_skip_prefix) (use d2 in simp_all)
  have c: "\<not> prefix (CHR '' '' # ?t) (ws'' @ name)"
  proof (cases ws'')
    case Nil
    show ?thesis
    proof
      assume "prefix (CHR '' '' # ?t) (ws'' @ name)"
      with Nil have "prefix (CHR '' '' # ?t) name" by simp
      then have "set (CHR '' '' # ?t) \<subseteq> set name" by (rule set_mono_prefix)
      then have "CHR '' '' \<in> set name" by simp
      with nosp show False by contradiction
    qed
  next
    case (Cons w ws2)
    show ?thesis
    proof
      assume "prefix (CHR '' '' # ?t) (ws'' @ name)"
      with Cons have p: "prefix ?t (ws2 @ name)" by auto
      show False
      proof (cases ws2)
        case Nil
        with p have "prefix ?t name" by simp
        then have "set ?t \<subseteq> set name" by (rule set_mono_prefix)
        then have "CHR '' '' \<in> set name" by simp
        with nosp show False by contradiction
      next
        case (Cons w2 ws3)
        with p have "w2 = CHR ''T''" by simp
        moreover have "isspace w2" using ws'' \<open>ws'' = w # ws2\<close> Cons by simp
        ultimately show False using nsT by simp
      qed
    qed
  qed
  have "sublist ?m (CHR ''-'' # ws'' @ name) =
        (prefix ?m (CHR ''-'' # ws'' @ name) \<or> sublist ?m (ws'' @ name))"
    by (rule sublist_Cons_right)
  with b c nname have "\<not> sublist ?m (CHR ''-'' # ws'' @ name)" by simp
  with a have "\<not> sublist ?m ((''not ok'' @ ws @ ds @ ws') @ (CHR ''-'' # ws'' @ name))"
    by blast
  then show ?thesis unfolding str_in_sublist by simp
qed


lemma boundary_notok:
  assumes ws: "ws \<noteq> []" "\<forall>c\<in>set ws. isspace c"
    and ds: "ds \<noteq> []" "\<forall>c\<in>set ds. isdigit c"
    and ws': "\<forall>c\<in>set ws'. isspace c"
    and ws'': "\<forall>c\<in>set ws''. isspace c"
    and name: "name \<noteq> []" "\<forall>c\<in>set name. \<not> isspace c"
    and l: "l = ''not ok'' @ ws @ ds @ ws' @ ''-'' @ ws'' @ name"
  shows "strip l = l" and "boundary l = Some (name, [l])"
proof -
  have nn: "\<not> isspace CHR ''n''" by (simp add: isspace_def)
  have hn: "\<not> isspace (hd name)" and ln: "\<not> isspace (last name)"
    using name by (simp_all add: hd_in_set)
  have sn: "strip name = name" using name(1) hn ln by (rule strip_id)
  have "l \<noteq> []" "hd l = CHR ''n''" "last l = last name"
    unfolding l using name(1) by simp_all
  then show "strip l = l" using nn ln by (intro strip_id) simp_all
  have m: "re_match pat_notok l = Some name"
    unfolding l using ws ds ws' ws'' name by (rule notok_match)
  have nm: "\<not> str_in ''- Test results:'' l"
    unfolding l using ws(2) ds(2) ws' ws'' name(2) by (rule no_marker)
  show "boundary l = Some (name, [l])"
    unfolding boundary_def Let_def using m nm sn by simp
qed

lemma commit_other:
  assumes "current_suite st \<noteq> Some name"
  shows "map_of (commit st) name = map_of (sections st) name"
  using assms by (cases "current_suite st") (simp_all add: commit_def update_conv')

lemma commit_same:
  assumes "current_suite st = Some name"
  shows "map_of (commit st) name = Some (current_lines st)"
  using assms by (simp add: commit_def update_conv')

lemma fold_closed:
  assumes "\<forall>r\<in>set post. map_option fst (boundary (strip r)) \<noteq> Some name"
    and "current_suite st \<noteq> Some name"
    and "map_of (sections st) name = Some v"
  shows "map_of (commit (foldl parse_step st post)) name = Some v"
  using assms
proof (induction post arbitrary: st)
  case Nil
  then show ?case by (simp add: commit_other)
next
  case (Cons r post)
  have r: "map_option fst (boundary (strip r)) \<noteq> Some name" using Cons.prems(1) by simp
  have rest: "\<forall>r\<in>set post. map_option fst (boundary (strip r)) \<noteq> Some name"
    using Cons.prems(1) by simp
  have "current_suite (parse_step st r) \<noteq> Some name \<and>
        map_of (sections (parse_step st r)) name = Some v"
  proof (cases "boundary (strip r)")
    case None
    with Cons.prems(2,3) show ?thesis by (simp add: parse_step_def Let_def)
  next
    case (Some p)
    obtain suite ini where p: "p = (suite, ini)" by (cases p)
    with Some r have "suite \<noteq> name" by simp
    with Some p Cons.prems(2,3) show ?thesis
      by (simp add: parse_step_def Let_def commit_other)
  qed
  then have "map_of (commit (foldl parse_step (parse_step st r) post)) name = Some v"
    using rest by (intro Cons.IH) simp_all
  then show ?case by simp
qed

lemma fold_open:
  assumes "\<forall>r\<in>set post. map_option fst (boundary (strip r)) \<noteq> Some name"
    and "current_suite st = Some name"
    and "current_lines st = l # acc"
  shows "map_of (commit (foldl parse_step st post)) name =
           Some (l # acc @ map strip (takeWhile (\<lambda>r. boundary (strip r) = None) post))"
  using assms
proof (induction post arbitrary: st acc)
  case Nil
  then show ?case by (simp add: commit_same)
next
  case (Cons r post)
  have r: "map_option fst (boundary (strip r)) \<noteq> Some name" using Cons.prems(1) by simp
  have rest: "\<forall>r\<in>set post. map_option fst (boundary (strip r)) \<noteq> Some name"
    using Cons.prems(1) by simp
  show ?case
  proof (cases "boundary (strip r)")
    case None
    let ?st = "parse_step st r"
    have "current_suite ?st = Some name" "current_lines ?st = l # (acc @ [strip r])"
      using None Cons.prems(2,3) by (simp_all add: parse_step_def Let_def)
    with rest have "map_of (commit (foldl parse_step ?st post)) name =
        Some (l # (acc @ [strip r]) @ map strip (takeWhile (\<lambda>r. boundary (strip r) = None) post))"
      by (rule Cons.IH)
    with None show ?thesis by simp
  next
    case (Some p)
    obtain suite ini where p: "p = (suite, ini)" by (cases p)
    with Some r have ne: "suite \<noteq> name" by simp
    let ?st = "parse_step st r"
    have "current_suite ?st \<noteq> Some name" "map_of (sections ?st) name = Some (l # acc)"
      using Some p ne Cons.prems(2,3) by (simp_all add: parse_step_def Let_def commit_same)
    with rest have "map_of (commit (foldl parse_step ?st post)) name = Some (l # acc)"
      by (rule fold_closed)
    with Some show ?thesis by simp
  qed
qed


text \<open>
  C3. For every well-formed line \<^verbatim>\<open>not ok N - name\<close> (\<^verbatim>\<open>not ok\<close>, white space, a
  decimal number, optional white space, a dash, optional white space, and a non-empty
  name without white space), the parser captures the suite name \<^term>\<open>name\<close> exactly and
  opens its content with the trigger line itself: the line is its own stripped form, the
  boundary test yields \<^term>\<open>name\<close> with the line as first content, one step of the loop
  commits the previous suite and starts \<^term>\<open>name\<close> with exactly that line. For a whole
  text in which the line occurs and no later line opens a suite of the same name, the
  result maps \<^term>\<open>name\<close> to the trigger line followed by the stripped lines up to the
  next boundary.
\<close>

theorem parse_notok_line:
  assumes ws: "ws \<noteq> []" "\<forall>c\<in>set ws. isspace c"
    and ds: "ds \<noteq> []" "\<forall>c\<in>set ds. isdigit c"
    and ws': "\<forall>c\<in>set ws'. isspace c"
    and ws'': "\<forall>c\<in>set ws''. isspace c"
    and name: "name \<noteq> []" "\<forall>c\<in>set name. \<not> isspace c"
    and l: "l = ''not ok'' @ ws @ ds @ ws' @ ''-'' @ ws'' @ name"
  shows "strip l = l \<and>
         boundary l = Some (name, [l]) \<and>
         parse_step st l =
           \<lparr>sections = commit st, current_suite = Some name, current_lines = [l]\<rparr> \<and>
         (splitlines content = pre @ l # post \<and>
          (\<forall>r\<in>set post. map_option fst (boundary (strip r)) \<noteq> Some name) \<longrightarrow>
            map_of (parse_log_sections content) name =
              Some (l # map strip (takeWhile (\<lambda>r. boundary (strip r) = None) post)))"
proof -
  have s: "strip l = l" and b: "boundary l = Some (name, [l])"
    using assms by (rule boundary_notok)+
  have step: "parse_step st' l =
                \<lparr>sections = commit st', current_suite = Some name, current_lines = [l]\<rparr>" for st'
    by (simp add: parse_step_def Let_def s b)
  have "map_of (parse_log_sections content) name =
          Some (l # map strip (takeWhile (\<lambda>r. boundary (strip r) = None) post))"
    if sl: "splitlines content = pre @ l # post"
      and post: "\<forall>r\<in>set post. map_option fst (boundary (strip r)) \<noteq> Some name"
  proof -
    let ?init = "\<lparr>sections = [], current_suite = None, current_lines = []\<rparr>"
    let ?st1 = "parse_step (foldl parse_step ?init pre) l"
    have "current_suite ?st1 = Some name" "current_lines ?st1 = l # []"
      by (simp_all add: step)
    with post have "map_of (commit (foldl parse_step ?st1 post)) name =
        Some (l # [] @ map strip (takeWhile (\<lambda>r. boundary (strip r) = None) post))"
      by (rule fold_open)
    then show ?thesis
      by (simp add: parse_log_sections_def parse_lines_def sl)
  qed
  with s b step show ?thesis by blast
qed

text \<open>An example text with a failure record in the middle.\<close>

lemma parse_example_lines:
  "splitlines
     ''Suite - Test results:\<newline>ok 1 - a\<newline>not ok 12 - login\<newline>  error: timeout\<newline>Other - Test results:\<newline>x'' =
   [''Suite - Test results:'', ''ok 1 - a''] @ ''not ok 12 - login'' #
   [''  error: timeout'', ''Other - Test results:'', ''x'']"
  "strip ''  error: timeout'' = ''error: timeout''"
  "strip ''Other - Test results:'' = ''Other - Test results:''"
  "strip ''x'' = ''x''"
  "boundary ''error: timeout'' = None"
  "boundary ''Other - Test results:'' = Some (''Other'', [])"
  "boundary ''x'' = None"
  by code_simp+

theorem parse_notok_line_witness:
  "boundary ''not ok 12 - login'' = Some (''login'', [''not ok 12 - login'']) \<and>
   map_of (parse_log_sections
     ''Suite - Test results:\<newline>ok 1 - a\<newline>not ok 12 - login\<newline>  error: timeout\<newline>Other - Test results:\<newline>x'')
     ''login'' = Some [''not ok 12 - login'', ''error: timeout'']"
proof -
  let ?txt = "''Suite - Test results:\<newline>ok 1 - a\<newline>not ok 12 - login\<newline>  error: timeout\<newline>Other - Test results:\<newline>x''"
  let ?post = "[''  error: timeout'', ''Other - Test results:'', ''x'']"
  have sp: "\<forall>c\<in>set '' ''. isspace c" by (simp add: isspace_def)
  have dg: "\<forall>c\<in>set ''12''. isdigit c" by (simp add: isdigit_def)
  have nm: "\<forall>c\<in>set ''login''. \<not> isspace c" by (simp add: isspace_def)
  have post: "\<forall>r\<in>set ?post. map_option fst (boundary (strip r)) \<noteq> Some ''login''"
    by (simp add: parse_example_lines)
  have tw: "map strip (takeWhile (\<lambda>r. boundary (strip r) = None) ?post) = [''error: timeout'']"
    by (simp add: parse_example_lines)
  from parse_notok_line [where ws = "'' ''" and ds = "''12''" and ws' = "'' ''"
      and ws'' = "'' ''" and name = "''login''" and l = "''not ok 12 - login''"
      and content = "?txt" and pre = "[''Suite - Test results:'', ''ok 1 - a'']" and post = "?post"
      and st = "\<lparr>sections = [], current_suite = None, current_lines = []\<rparr>",
      OF _ sp _ dg sp sp _ nm]
  have "boundary ''not ok 12 - login'' = Some (''login'', [''not ok 12 - login'']) \<and>
        (splitlines ?txt = [''Suite - Test results:'', ''ok 1 - a''] @ ''not ok 12 - login'' # ?post \<and>
          (\<forall>r\<in>set ?post. map_option fst (boundary (strip r)) \<noteq> Some ''login'') \<longrightarrow>
            map_of (parse_log_sections ?txt) ''login'' =
              Some (''not ok 12 - login'' #
                    map strip (takeWhile (\<lambda>r. boundary (strip r) = None) ?post)))"
    by simp
  with parse_example_lines(1) post tw show ?thesis by simp
qed

end
